theory Spec2Isabelle
  imports Complex_Main "HOL-Library.Multiset"
begin

section \<open>The bounded-integer arbitrary: \<open>packages/fast-check/src/arbitrary/integer.ts\<close>\<close>

subsection \<open>JavaScript numbers\<close>

text \<open>
  A JavaScript \<open>number\<close> is an IEEE-754 double. The code of \<open>integer\<close> only compares two
  numbers with \<open>>\<close> and asks \<open>Number.isInteger\<close> of them; both operations are exact on
  doubles. A finite double is therefore modelled by the rational it denotes (every finite
  double is a rational; the two signed zeros are identified, they compare equal and are
  both integers), and the three non-finite doubles are values of their own.
\<close>

datatype number = Finite rat | NaN | PosInfinity | NegInfinity

text \<open>\<open>a > b\<close> on numbers: false as soon as one side is \<open>NaN\<close>.\<close>

fun number_gt :: "number \<Rightarrow> number \<Rightarrow> bool" where
  "number_gt NaN _ = False"
| "number_gt _ NaN = False"
| "number_gt (Finite a) (Finite b) = (b < a)"
| "number_gt (Finite _) PosInfinity = False"
| "number_gt (Finite _) NegInfinity = True"
| "number_gt PosInfinity PosInfinity = False"
| "number_gt PosInfinity _ = True"
| "number_gt NegInfinity _ = False"

text \<open>\<open>const safeNumberIsInteger = Number.isInteger\<close>: true exactly for the finite numbers
  without a fractional part.\<close>

fun safeNumberIsInteger :: "number \<Rightarrow> bool" where
  "safeNumberIsInteger (Finite q) = (of_int \<lfloor>q\<rfloor> = q)"
| "safeNumberIsInteger _ = False"

subsection \<open>Constraints\<close>

text \<open>\<open>interface IntegerConstraints { min?: number; max?: number }\<close>: an absent field
  reads as \<open>undefined\<close>, which is \<open>None\<close> here.\<close>

record IntegerConstraints =
  c_min :: "number option"
  c_max :: "number option"

text \<open>\<open>Required<IntegerConstraints>\<close>: both fields present.\<close>

record RequiredIntegerConstraints =
  full_min :: number
  full_max :: number

text \<open>The object literal \<open>{}\<close>, the default value of the parameter of \<open>integer\<close>.\<close>

definition empty_constraints :: IntegerConstraints where
  "empty_constraints = \<lparr>c_min = None, c_max = None\<rparr>"

definition buildCompleteIntegerConstraints :: "IntegerConstraints \<Rightarrow> RequiredIntegerConstraints" where
  "buildCompleteIntegerConstraints constraints =
     (let mn = (if c_min constraints \<noteq> None then the (c_min constraints) else Finite (- 2147483648));
          mx = (if c_max constraints \<noteq> None then the (c_max constraints) else Finite 2147483647)
      in \<lparr>full_min = mn, full_max = mx\<rparr>)"

subsection \<open>Construction\<close>

text \<open>
  Modelled from the spec: the class \<open>IntegerArbitrary\<close> (\<open>./_internals/IntegerArbitrary\<close>) is
  not among the sources. \<open>integer\<close> only calls its constructor with the two bounds, so an
  instance is represented by the pair of bounds it was built with.
\<close>

datatype IntegerArbitrary = IntegerArbitrary (arb_min: number) (arb_max: number)

text \<open>\<open>throw new Error(msg)\<close>: the error carries its message.\<close>

datatype error = Error string

text \<open>
  \<open>integer(constraints: IntegerConstraints = {})\<close>. The argument is optional; \<open>None\<close> is
  the call without an argument. The three checks are in the order of the source.
\<close>

definition integer :: "IntegerConstraints option \<Rightarrow> error + IntegerArbitrary" where
  "integer arg =
     (let constraints = (case arg of None \<Rightarrow> empty_constraints | Some c \<Rightarrow> c);
          fullConstraints = buildCompleteIntegerConstraints constraints
      in if number_gt (full_min fullConstraints) (full_max fullConstraints) then
           Inl (Error ''fc.integer maximum value should be equal or greater than the minimum one'')
         else if \<not> safeNumberIsInteger (full_min fullConstraints) then
           Inl (Error ''fc.integer minimum value should be an integer'')
         else if \<not> safeNumberIsInteger (full_max fullConstraints) then
           Inl (Error ''fc.integer maximum value should be an integer'')
         else Inr (IntegerArbitrary (full_min fullConstraints) (full_max fullConstraints)))"

text \<open>The bounds after the defaults have been applied, and whether a call throws.\<close>

definition defaulted_min :: "IntegerConstraints \<Rightarrow> number" where
  "defaulted_min c = full_min (buildCompleteIntegerConstraints c)"

definition defaulted_max :: "IntegerConstraints \<Rightarrow> number" where
  "defaulted_max c = full_max (buildCompleteIntegerConstraints c)"

definition throws :: "'e + 'a \<Rightarrow> bool" where
  "throws r = (case r of Inl _ \<Rightarrow> True | Inr _ \<Rightarrow> False)"

section \<open>The worker runner: \<open>packages/worker/src/internals/worker-runner/WorkerRunner.ts\<close>\<close>

subsection \<open>Messages\<close>

text \<open>
  Modelled from the spec: the message types \<open>MainThreadToWorkerMessage\<close>,
  \<open>WorkerToMainThreadMessage\<close> (\<open>SharedTypes.js\<close>), \<open>Payload\<close> (\<open>IWorkerPool.js\<close>) and
  \<open>ValueState\<close> (\<open>ValueFromState.js\<close>) are declared outside the sources. The spec gives
  a message from the main thread three fields, the identity of the predicate, the
  \<open>runId\<close> and the payload, and a payload two forms, \<open>{ source: "main", value }\<close> and
  \<open>{ source: "state", ...state }\<close>; the names of the fields are the ones \<open>runWorker\<close>
  destructures, so the identity of the predicate is the field \<open>targetPredicateId\<close>. The
  inputs \<open>Ts\<close> and the state descriptor are type parameters; both ids are integers.
\<close>

datatype ('i, 's) Payload = Main 'i | State 's

record ('i, 's) MainThreadToWorkerMessage =
  payload :: "('i, 's) Payload"
  targetPredicateId :: int
  runId :: int

text \<open>A predicate returns (or promises) \<open>boolean | void\<close>, as the result type of
  \<open>wrapAndRunAsPromise\<close> says.\<close>

datatype predicate_output = Undefined | Boolean bool

text \<open>The two object literals of lines 27 and 31: \<open>{ success: true, output, runId }\<close> and
  \<open>{ success: false, error, runId }\<close>. An error is any value; its type is a parameter.\<close>

datatype 'e WorkerToMainThreadMessage =
  Success predicate_output int
| Failure 'e int

fun response_runId :: "'e WorkerToMainThreadMessage \<Rightarrow> int" where
  "response_runId (Success _ r) = r"
| "response_runId (Failure _ r) = r"

subsection \<open>Promises and the event loop\<close>

text \<open>
  A promise is pending, with the reactions registered on it by \<open>then\<close>, or settled. The
  only reaction \<open>runWorker\<close> ever registers is the pair of callbacks of its \<open>then\<close>; the two
  callbacks differ from one registration to the next only in the \<open>runId\<close> they have
  captured, so a reaction is represented by that \<open>runId\<close>.
\<close>

datatype 'e settlement = Fulfilled predicate_output | Rejected 'e

datatype 'e promise_state = Pending "int list" | Settled "'e settlement"

text \<open>
  What one call \<open>predicate(...inputs)\<close> does: it returns a value that is not a promise, it
  throws, or it returns a promise, which at that moment is already settled (\<open>Some\<close>) or
  still pending (\<open>None\<close>; it is settled later, or never, by an event of the loop). The
  predicate is a parameter of the model, a function from the inputs to one of these; the
  promise of a call is a new one. A call that never returns is outside the model.
\<close>

datatype 'e predicate_result = Returns predicate_output | Throws 'e | ReturnsPromise "'e settlement option"

text \<open>What an expression evaluates to: a plain value or a reference to a promise.\<close>

datatype returned = Value predicate_output | PromiseRef nat

text \<open>The calls of the two functions given to \<open>runWorker\<close>, in the order they are made.\<close>

datatype ('i, 's) call = BuildInputsCall 's | PredicateCall 'i

text \<open>
  The state of the worker's thread: the promises created so far (a promise is referred to
  by its index), the queue of reaction jobs (microtasks) not yet run, the messages given
  to \<open>parentPort.postMessage\<close> in order, the log of the calls of \<open>buildInputs\<close> and
  \<open>predicate\<close>, and the exceptions that escaped from the listener. \<open>parentPort\<close> is a
  \<open>MessagePort\<close> of Node; a call of its \<open>postMessage\<close> is recorded, what the port does
  with the message is not part of the model. The promise that \<open>then\<close> itself returns is
  dropped by \<open>runWorker\<close> and is not in the store.
\<close>

record ('i, 's, 'e) runtime =
  promises :: "'e promise_state list"
  jobs :: "(int \<times> 'e settlement) list"
  posted :: "'e WorkerToMainThreadMessage list"
  calls :: "('i, 's) call list"
  escaped :: "'e list"

definition initial :: "('i, 's, 'e) runtime" where
  "initial = \<lparr>promises = [], jobs = [], posted = [], calls = [], escaped = []\<rparr>"

definition new_promise :: "'e promise_state \<Rightarrow> ('i, 's, 'e) runtime \<Rightarrow> nat \<times> ('i, 's, 'e) runtime" where
  "new_promise st rt = (length (promises rt), rt\<lparr>promises := promises rt @ [st]\<rparr>)"

text \<open>\<open>Promise.resolve(x)\<close>: a promise is returned as it is, any other value gives a new
  promise fulfilled with it. \<open>Promise.reject(err)\<close>: a new promise rejected with \<open>err\<close>.\<close>

definition Promise_resolve :: "returned \<Rightarrow> ('i, 's, 'e) runtime \<Rightarrow> nat \<times> ('i, 's, 'e) runtime" where
  "Promise_resolve x rt =
     (case x of PromiseRef p \<Rightarrow> (p, rt) | Value v \<Rightarrow> new_promise (Settled (Fulfilled v)) rt)"

definition Promise_reject :: "'e \<Rightarrow> ('i, 's, 'e) runtime \<Rightarrow> nat \<times> ('i, 's, 'e) runtime" where
  "Promise_reject err rt = new_promise (Settled (Rejected err)) rt"

text \<open>
  \<open>p.then(onFulfilled, onRejected)\<close> with the two callbacks of \<open>runWorker\<close> that captured
  \<open>r\<close>: on a pending promise the reaction is stored, on a settled one its job is queued.
  (A reference outside the store does not occur: every reference comes from
  \<open>new_promise\<close>.)
\<close>

definition promise_then :: "nat \<Rightarrow> int \<Rightarrow> ('i, 's, 'e) runtime \<Rightarrow> ('i, 's, 'e) runtime" where
  "promise_then p r rt =
     (if p < length (promises rt) then
        (case promises rt ! p of
           Pending rs \<Rightarrow> rt\<lparr>promises := (promises rt)[p := Pending (rs @ [r])]\<rparr>
         | Settled s \<Rightarrow> rt\<lparr>jobs := jobs rt @ [(r, s)]\<rparr>)
      else rt)"

text \<open>A pending promise is settled: its reactions become jobs. A promise settles once.\<close>

definition settle :: "nat \<Rightarrow> 'e settlement \<Rightarrow> ('i, 's, 'e) runtime \<Rightarrow> ('i, 's, 'e) runtime" where
  "settle p s rt =
     (if p < length (promises rt) then
        (case promises rt ! p of
           Pending rs \<Rightarrow> rt\<lparr>promises := (promises rt)[p := Settled s],
                              jobs := jobs rt @ map (\<lambda>r. (r, s)) rs\<rparr>
         | Settled _ \<Rightarrow> rt)
      else rt)"

definition postMessage :: "'e WorkerToMainThreadMessage \<Rightarrow> ('i, 's, 'e) runtime \<Rightarrow> ('i, 's, 'e) runtime" where
  "postMessage m rt = rt\<lparr>posted := posted rt @ [m]\<rparr>"

text \<open>The two callbacks given to \<open>then\<close> (lines 26 to 33), for the captured \<open>runId\<close>.\<close>

fun run_job :: "int \<times> 'e settlement \<Rightarrow> ('i, 's, 'e) runtime \<Rightarrow> ('i, 's, 'e) runtime" where
  "run_job (r, Fulfilled out) rt = postMessage (Success out r) rt"
| "run_job (r, Rejected err) rt = postMessage (Failure err r) rt"

text \<open>The microtask queue is emptied; the callbacks queue no further job.\<close>

definition run_jobs :: "('i, 's, 'e) runtime \<Rightarrow> ('i, 's, 'e) runtime" where
  "run_jobs rt = fold run_job (jobs rt) (rt\<lparr>jobs := []\<rparr>)"

subsection \<open>\<open>wrapAndRunAsPromise\<close> and the listener of \<open>runWorker\<close>\<close>

text \<open>The call \<open>predicate(...inputs)\<close>: \<open>Inl\<close> is a thrown exception.\<close>

definition call_predicate ::
  "('i \<Rightarrow> 'e predicate_result) \<Rightarrow> 'i \<Rightarrow> ('i, 's, 'e) runtime \<Rightarrow> ('e + returned) \<times> ('i, 's, 'e) runtime" where
  "call_predicate predicate inputs rt =
     (let rt1 = rt\<lparr>calls := calls rt @ [PredicateCall inputs]\<rparr> in
      case predicate inputs of
        Returns v \<Rightarrow> (Inr (Value v), rt1)
      | Throws err \<Rightarrow> (Inl err, rt1)
      | ReturnsPromise None \<Rightarrow>
          (let (p, rt2) = new_promise (Pending []) rt1 in (Inr (PromiseRef p), rt2))
      | ReturnsPromise (Some s) \<Rightarrow>
          (let (p, rt2) = new_promise (Settled s) rt1 in (Inr (PromiseRef p), rt2)))"

text \<open>
  \<open>try { return Promise.resolve(predicate(...inputs)); } catch (err) { return Promise.reject(err); }\<close>
  The result is again a sum, so that an exception leaving the function would show as \<open>Inl\<close>.
\<close>

definition wrapAndRunAsPromise ::
  "('i \<Rightarrow> 'e predicate_result) \<Rightarrow> 'i \<Rightarrow> ('i, 's, 'e) runtime \<Rightarrow> ('e + nat) \<times> ('i, 's, 'e) runtime" where
  "wrapAndRunAsPromise predicate inputs rt =
     (case call_predicate predicate inputs rt of
        (Inr x, rt1) \<Rightarrow> (let (p, rt2) = Promise_resolve x rt1 in (Inr p, rt2))
      | (Inl err, rt1) \<Rightarrow> (let (p, rt2) = Promise_reject err rt1 in (Inr p, rt2)))"

text \<open>
  The listener that \<open>runWorker(parentPort, predicateId, predicate, buildInputs)\<close> registers
  with \<open>parentPort.on('message', ...)\<close>, applied to one message. \<open>buildInputs\<close> may throw
  (\<open>Inl\<close>); it is called outside of any \<open>try\<close>, so its exception leaves the listener.
\<close>

definition runWorker ::
  "int \<Rightarrow> ('i \<Rightarrow> 'e predicate_result) \<Rightarrow> ('s \<Rightarrow> 'e + 'i) \<Rightarrow> ('i, 's) MainThreadToWorkerMessage
     \<Rightarrow> ('i, 's, 'e) runtime \<Rightarrow> ('e + unit) \<times> ('i, 's, 'e) runtime" where
  "runWorker predicateId predicate buildInputs message rt =
     (if targetPredicateId message \<noteq> predicateId then (Inr (), rt)
      else
        case (case payload message of
                Main v \<Rightarrow> (Inr v, rt)
              | State st \<Rightarrow> (buildInputs st, rt\<lparr>calls := calls rt @ [BuildInputsCall st]\<rparr>)) of
          (Inl err, rt1) \<Rightarrow> (Inl err, rt1)
        | (Inr inputs, rt1) \<Rightarrow>
            (case wrapAndRunAsPromise predicate inputs rt1 of
               (Inl err, rt2) \<Rightarrow> (Inl err, rt2)
             | (Inr p, rt2) \<Rightarrow> (Inr (), promise_then p (runId message) rt2)))"

text \<open>
  The events of the worker's thread: a message arrives on \<open>parentPort\<close>, or a promise that
  a predicate returned is settled by whatever the predicate was waiting for. \<open>step\<close> is one
  turn of the loop of a running worker: the event is handled, then the queued reaction
  jobs are run. An exception that leaves the listener is recorded in \<open>escaped\<close>.
\<close>

datatype ('i, 's, 'e) event =
  Message "('i, 's) MainThreadToWorkerMessage"
| Settle nat "'e settlement"

definition step ::
  "int \<Rightarrow> ('i \<Rightarrow> 'e predicate_result) \<Rightarrow> ('s \<Rightarrow> 'e + 'i) \<Rightarrow> ('i, 's, 'e) event
     \<Rightarrow> ('i, 's, 'e) runtime \<Rightarrow> ('i, 's, 'e) runtime" where
  "step predicateId predicate buildInputs ev rt =
     (case ev of
        Message m \<Rightarrow>
          (case runWorker predicateId predicate buildInputs m rt of
             (Inl err, rt1) \<Rightarrow> run_jobs (rt1\<lparr>escaped := escaped rt1 @ [err]\<rparr>)
           | (Inr _, rt1) \<Rightarrow> run_jobs rt1)
      | Settle p s \<Rightarrow> run_jobs (settle p s rt))"

text \<open>
  Nothing in the sources catches an exception that leaves the listener, and on the
  \<open>parentPort\<close> of a worker thread such an exception ends the worker. So the worker
  serves an event only as long as no exception has escaped; every later event finds the
  worker gone and changes nothing. \<open>run\<close> is the worker from its start over a sequence
  of events.
\<close>

definition serve ::
  "int \<Rightarrow> ('i \<Rightarrow> 'e predicate_result) \<Rightarrow> ('s \<Rightarrow> 'e + 'i) \<Rightarrow> ('i, 's, 'e) event
     \<Rightarrow> ('i, 's, 'e) runtime \<Rightarrow> ('i, 's, 'e) runtime" where
  "serve predicateId predicate buildInputs ev rt =
     (if escaped rt = [] then step predicateId predicate buildInputs ev rt else rt)"

definition run ::
  "int \<Rightarrow> ('i \<Rightarrow> 'e predicate_result) \<Rightarrow> ('s \<Rightarrow> 'e + 'i) \<Rightarrow> ('i, 's, 'e) event list
     \<Rightarrow> ('i, 's, 'e) runtime" where
  "run predicateId predicate buildInputs evs = fold (serve predicateId predicate buildInputs) evs initial"

subsection \<open>Vocabulary of the properties\<close>

text \<open>The reactions still waiting on pending promises.\<close>

fun reactions :: "'e promise_state \<Rightarrow> int list" where
  "reactions (Pending rs) = rs"
| "reactions (Settled _) = []"

definition pending_reactions :: "('i, 's, 'e) runtime \<Rightarrow> int list" where
  "pending_reactions rt = concat (map reactions (promises rt))"

text \<open>A message is accepted when it passes the test of line 20.\<close>

definition accepted :: "int \<Rightarrow> ('i, 's, 'e) event \<Rightarrow> bool" where
  "accepted predicateId ev =
     (case ev of Message m \<Rightarrow> targetPredicateId m = predicateId | Settle _ _ \<Rightarrow> False)"

fun event_runId :: "('i, 's, 'e) event \<Rightarrow> int" where
  "event_runId (Message m) = runId m"
| "event_runId (Settle _ _) = 0"

text \<open>Line 24: the inputs of an accepted message, or the exception of \<open>buildInputs\<close>;
  and the trace that evaluating line 24 leaves in the log of calls.\<close>

definition message_inputs :: "('s \<Rightarrow> 'e + 'i) \<Rightarrow> ('i, 's) MainThreadToWorkerMessage \<Rightarrow> 'e + 'i" where
  "message_inputs buildInputs m = (case payload m of Main v \<Rightarrow> Inr v | State st \<Rightarrow> buildInputs st)"

definition log_inputs :: "('i, 's) MainThreadToWorkerMessage \<Rightarrow> ('i, 's, 'e) runtime \<Rightarrow> ('i, 's, 'e) runtime" where
  "log_inputs m rt =
     (case payload m of Main v \<Rightarrow> rt | State st \<Rightarrow> rt\<lparr>calls := calls rt @ [BuildInputsCall st]\<rparr>)"

text \<open>An event at which \<open>buildInputs\<close> throws: an accepted message with a \<open>state\<close> payload
  that \<open>buildInputs\<close> fails on.\<close>

fun thrower :: "int \<Rightarrow> ('s \<Rightarrow> 'e + 'i) \<Rightarrow> ('i, 's, 'e) event \<Rightarrow> bool" where
  "thrower predicateId buildInputs (Message m) =
     (targetPredicateId m = predicateId
      \<and> (case message_inputs buildInputs m of Inl _ \<Rightarrow> True | Inr _ \<Rightarrow> False))"
| "thrower predicateId buildInputs (Settle _ _) = False"

text \<open>The runs a sequence of events starts, in order: for each accepted message whose
  inputs are obtained, its \<open>runId\<close> and the inputs the predicate is run on.\<close>

fun started_run :: "int \<Rightarrow> ('s \<Rightarrow> 'e + 'i) \<Rightarrow> ('i, 's, 'e) event \<Rightarrow> (int \<times> 'i) list" where
  "started_run predicateId buildInputs (Message m) =
     (if targetPredicateId m = predicateId then
        (case message_inputs buildInputs m of Inl _ \<Rightarrow> [] | Inr i \<Rightarrow> [(runId m, i)])
      else [])"
| "started_run predicateId buildInputs (Settle _ _) = []"

definition started_runs :: "int \<Rightarrow> ('s \<Rightarrow> 'e + 'i) \<Rightarrow> ('i, 's, 'e) event list \<Rightarrow> (int \<times> 'i) list" where
  "started_runs predicateId buildInputs evs = concat (map (started_run predicateId buildInputs) evs)"

text \<open>The message that the reaction with the captured \<open>runId\<close> posts for a settlement.\<close>

definition response_of :: "int \<times> 'e settlement \<Rightarrow> 'e WorkerToMainThreadMessage" where
  "response_of j =
     (case snd j of Fulfilled out \<Rightarrow> Success out (fst j) | Rejected err \<Rightarrow> Failure err (fst j))"

text \<open>The state of the promise that \<open>wrapAndRunAsPromise\<close> hands back, by what the
  predicate did.\<close>

fun promise_of :: "'e predicate_result \<Rightarrow> 'e promise_state" where
  "promise_of (Returns v) = Settled (Fulfilled v)"
| "promise_of (Throws err) = Settled (Rejected err)"
| "promise_of (ReturnsPromise None) = Pending []"
| "promise_of (ReturnsPromise (Some s)) = Settled s"

text \<open>
  The \<open>k\<close>-th run and the \<open>k\<close>-th promise of the store. \<open>answer\<close> is the response due to
  run \<open>k\<close>: none while its promise is pending, and once the promise is settled the
  message with the \<open>runId\<close> of run \<open>k\<close> and the outcome of that promise. \<open>own_promise\<close>
  says that promise \<open>k\<close> is the promise of run \<open>k\<close>: while pending, the one reaction
  waiting on it is the one that captured the \<open>runId\<close> of run \<open>k\<close>; once settled, its
  outcome is what the predicate did on the inputs of run \<open>k\<close>, or, for a predicate that
  returned a pending promise, what an event settled promise \<open>k\<close> with.
\<close>

definition answer ::
  "'e promise_state list \<Rightarrow> (int \<times> 'i) list \<Rightarrow> nat \<Rightarrow> 'e WorkerToMainThreadMessage option" where
  "answer ps runs k =
     (case ps ! k of Pending _ \<Rightarrow> None | Settled s \<Rightarrow> Some (response_of (fst (runs ! k), s)))"

definition own_promise ::
  "('i \<Rightarrow> 'e predicate_result) \<Rightarrow> ('i, 's, 'e) event list \<Rightarrow> (int \<times> 'i) list
     \<Rightarrow> 'e promise_state list \<Rightarrow> nat \<Rightarrow> bool" where
  "own_promise predicate evs runs ps k =
     (case ps ! k of
        Pending rs \<Rightarrow> rs = [fst (runs ! k)] \<and> promise_of (predicate (snd (runs ! k))) = Pending []
      | Settled s \<Rightarrow>
          promise_of (predicate (snd (runs ! k))) = Settled s
          \<or> (promise_of (predicate (snd (runs ! k))) = Pending [] \<and> Settle k s \<in> set evs))"

text \<open>
  The books of a running worker after the events \<open>evs\<close>, for the runs \<open>runs\<close> they
  started: no job is queued and no exception has escaped, there is one promise for each
  run and it is the run's own, and the messages posted are the answers of the settled
  runs, each once, in the order \<open>order\<close> in which they were given.
\<close>

definition ledger ::
  "('i \<Rightarrow> 'e predicate_result) \<Rightarrow> ('i, 's, 'e) event list \<Rightarrow> (int \<times> 'i) list
     \<Rightarrow> ('i, 's, 'e) runtime \<Rightarrow> nat list \<Rightarrow> bool" where
  "ledger predicate evs runs rt order \<longleftrightarrow>
     jobs rt = [] \<and> escaped rt = []
     \<and> length (promises rt) = length runs
     \<and> (\<forall>k<length runs. own_promise predicate evs runs (promises rt) k)
     \<and> distinct order
     \<and> set order = {k. k < length runs \<and> answer (promises rt) runs k \<noteq> None}
     \<and> map Some (posted rt) = map (answer (promises rt) runs) order"

section \<open>\<open>integer\<close> on objects in a store\<close>

text \<open>
  \<open>integer\<close> receives a reference to the constraints object, and what it builds are new
  objects: the literal \<open>{}\<close> of the default parameter, the literal \<open>{ min, max }\<close> of
  \<open>buildCompleteIntegerConstraints\<close>, and the \<open>IntegerArbitrary\<close>. The store is the list
  of the objects allocated so far; a reference is an index into it, and an assignment to
  a field of the object at \<open>a\<close> is the list update at \<open>a\<close>. The fields hold numbers, which
  are primitive values and are copied. \<open>None\<close> as a result stands for a call that the
  types exclude (the reference is not one to a constraints object).
\<close>

datatype object =
  ConstraintsObject IntegerConstraints
| FullConstraintsObject RequiredIntegerConstraints
| ArbitraryObject IntegerArbitrary

definition alloc :: "object \<Rightarrow> object list \<Rightarrow> nat \<times> object list" where
  "alloc ob h = (length h, h @ [ob])"

definition integer_in_heap :: "nat option \<Rightarrow> object list \<Rightarrow> ((error + nat) \<times> object list) option" where
  "integer_in_heap arg h =
     (let (constraints, h1) =
            (case arg of None \<Rightarrow> alloc (ConstraintsObject empty_constraints) h | Some a \<Rightarrow> (a, h))
      in if constraints < length h1 then
           (case h1 ! constraints of
              ConstraintsObject c \<Rightarrow>
                (let (fullConstraints, h2) =
                       alloc (FullConstraintsObject (buildCompleteIntegerConstraints c)) h1
                 in case integer (Some c) of
                      Inl err \<Rightarrow> Some (Inl err, h2)
                    | Inr arb \<Rightarrow> (let (p, h3) = alloc (ArbitraryObject arb) h2 in Some (Inr p, h3)))
            | _ \<Rightarrow> None)
         else None)"

section \<open>Concrete inputs\<close>

text \<open>A worker registered for predicate \<open>1\<close>, messages for it, and predicates and input
  builders of each kind; the values at which the properties below are evaluated.\<close>

definition state_message :: "int \<Rightarrow> (nat list, nat) MainThreadToWorkerMessage" where
  "state_message r = \<lparr>payload = State 7, targetPredicateId = 1, runId = r\<rparr>"

definition main_message :: "int \<Rightarrow> (nat list, nat) MainThreadToWorkerMessage" where
  "main_message r = \<lparr>payload = Main [3, 4], targetPredicateId = 1, runId = r\<rparr>"

definition rebuild :: "nat \<Rightarrow> string + nat list" where
  "rebuild st = Inr [st]"

definition failing_rebuild :: "nat \<Rightarrow> string + nat list" where
  "failing_rebuild st = Inl ''cannot rebuild''"

definition passing :: "nat list \<Rightarrow> string predicate_result" where
  "passing inputs = Returns Undefined"

definition throwing :: "nat list \<Rightarrow> string predicate_result" where
  "throwing inputs = Throws ''boom''"

definition rejecting :: "nat list \<Rightarrow> string predicate_result" where
  "rejecting inputs = ReturnsPromise (Some (Rejected ''boom''))"

definition asynchronous :: "nat list \<Rightarrow> string predicate_result" where
  "asynchronous inputs = ReturnsPromise None"

definition short_only :: "nat list \<Rightarrow> string predicate_result" where
  "short_only inputs = (if length inputs < 2 then Returns (Boolean True) else Throws ''too long'')"

definition small_bounds :: IntegerConstraints where
  "small_bounds = \<lparr>c_min = Some (Finite 1), c_max = Some (Finite 9)\<rparr>"

definition other_bounds :: IntegerConstraints where
  "other_bounds = \<lparr>c_min = Some (Finite 100), c_max = None\<rparr>"

section \<open>Properties of \<open>integer\<close>\<close>

lemma defaulted_min_simps:
  "defaulted_min \<lparr>c_min = None, c_max = mx\<rparr> = Finite (- 2147483648)"
  "defaulted_min \<lparr>c_min = Some v, c_max = mx\<rparr> = v"
  by (simp_all add: defaulted_min_def buildCompleteIntegerConstraints_def)

lemma defaulted_max_simps:
  "defaulted_max \<lparr>c_min = mn, c_max = None\<rparr> = Finite 2147483647"
  "defaulted_max \<lparr>c_min = mn, c_max = Some v\<rparr> = v"
  by (simp_all add: defaulted_max_def buildCompleteIntegerConstraints_def)

lemma integer_unfold:
  "integer (Some c) =
     (if number_gt (defaulted_min c) (defaulted_max c) then
        Inl (Error ''fc.integer maximum value should be equal or greater than the minimum one'')
      else if \<not> safeNumberIsInteger (defaulted_min c) then
        Inl (Error ''fc.integer minimum value should be an integer'')
      else if \<not> safeNumberIsInteger (defaulted_max c) then
        Inl (Error ''fc.integer maximum value should be an integer'')
      else Inr (IntegerArbitrary (defaulted_min c) (defaulted_max c)))"
  by (simp add: integer_def defaulted_min_def defaulted_max_def Let_def)

text \<open>
  C3. \<open>integer(constraints)\<close> throws if and only if, after the defaults have been applied,
  \<open>min > max\<close> or \<open>min\<close> is not an integer or \<open>max\<close> is not an integer; otherwise it returns
  the \<open>IntegerArbitrary\<close> built with exactly the defaulted \<open>min\<close> and \<open>max\<close>. In particular
  \<open>integer({min: 5, max: 2})\<close> throws: the result of the construction is the error, no
  arbitrary is ever built.
\<close>

theorem integer_throws_iff:
  "(throws (integer (Some c)) \<longleftrightarrow>
      number_gt (defaulted_min c) (defaulted_max c)
      \<or> \<not> safeNumberIsInteger (defaulted_min c)
      \<or> \<not> safeNumberIsInteger (defaulted_max c))
   \<and> (if throws (integer (Some c)) then \<exists>msg. integer (Some c) = Inl (Error msg)
      else integer (Some c) = Inr (IntegerArbitrary (defaulted_min c) (defaulted_max c)))
   \<and> throws (integer (Some \<lparr>c_min = Some (Finite 5), c_max = Some (Finite 2)\<rparr>))
   \<and> integer None = integer (Some empty_constraints)"
proof (intro conjI)
  show "throws (integer (Some c)) \<longleftrightarrow>
      number_gt (defaulted_min c) (defaulted_max c)
      \<or> \<not> safeNumberIsInteger (defaulted_min c)
      \<or> \<not> safeNumberIsInteger (defaulted_max c)"
    by (simp add: integer_unfold throws_def)
  show "if throws (integer (Some c)) then \<exists>msg. integer (Some c) = Inl (Error msg)
      else integer (Some c) = Inr (IntegerArbitrary (defaulted_min c) (defaulted_max c))"
    by (simp add: integer_unfold throws_def)
  show "throws (integer (Some \<lparr>c_min = Some (Finite 5), c_max = Some (Finite 2)\<rparr>))"
    by (simp add: integer_unfold throws_def defaulted_min_simps defaulted_max_simps)
  show "integer None = integer (Some empty_constraints)"
    by (simp add: integer_def)
qed

lemma five_halves_not_integer: "\<not> safeNumberIsInteger (Finite (5 / 2))"
  by code_simp

theorem integer_throws_iff_witness:
  "throws (integer (Some \<lparr>c_min = Some (Finite (5 / 2)), c_max = None\<rparr>))
   \<and> integer (Some \<lparr>c_min = Some (Finite (- 99)), c_max = Some (Finite 99)\<rparr>)
       = Inr (IntegerArbitrary (Finite (- 99)) (Finite 99))"
proof
  have "\<not> safeNumberIsInteger (defaulted_min \<lparr>c_min = Some (Finite (5 / 2)), c_max = None\<rparr>)"
    by (simp only: defaulted_min_simps five_halves_not_integer not_False_eq_True)
  with integer_throws_iff [of "\<lparr>c_min = Some (Finite (5 / 2)), c_max = None\<rparr>"]
  show "throws (integer (Some \<lparr>c_min = Some (Finite (5 / 2)), c_max = None\<rparr>))"
    by blast
next
  show "integer (Some \<lparr>c_min = Some (Finite (- 99)), c_max = Some (Finite 99)\<rparr>)
       = Inr (IntegerArbitrary (Finite (- 99)) (Finite 99))"
    using integer_throws_iff [of "\<lparr>c_min = Some (Finite (- 99)), c_max = Some (Finite 99)\<rparr>"]
    by (simp add: defaulted_min_simps defaulted_max_simps split: if_splits)
qed

text \<open>
  C7. When \<open>constraints.min\<close> is omitted, \<open>integer\<close> uses \<open>-2147483648\<close>, that is \<open>-2^31\<close>,
  as the lower bound; when \<open>constraints.max\<close> is omitted it uses \<open>2147483647\<close>, that is
  \<open>2^31 - 1\<close>, as the upper bound; a bound that is given is used unchanged. These are the
  bounds \<open>buildCompleteIntegerConstraints\<close> returns, the bounds the checks of \<open>integer\<close>
  are made on, and the bounds of the arbitrary that \<open>integer\<close> returns.
\<close>

theorem integer_uses_default_bounds:
  "full_min (buildCompleteIntegerConstraints c) =
     (case c_min c of None \<Rightarrow> Finite (- (2 ^ 31)) | Some v \<Rightarrow> v)
   \<and> full_max (buildCompleteIntegerConstraints c) =
     (case c_max c of None \<Rightarrow> Finite (2 ^ 31 - 1) | Some v \<Rightarrow> v)
   \<and> Finite (- (2 ^ 31)) = Finite (- 2147483648)
   \<and> Finite (2 ^ 31 - 1) = Finite 2147483647
   \<and> (throws (integer (Some c)) \<longleftrightarrow>
        number_gt (case c_min c of None \<Rightarrow> Finite (- 2147483648) | Some v \<Rightarrow> v)
                  (case c_max c of None \<Rightarrow> Finite 2147483647 | Some v \<Rightarrow> v)
        \<or> \<not> safeNumberIsInteger (case c_min c of None \<Rightarrow> Finite (- 2147483648) | Some v \<Rightarrow> v)
        \<or> \<not> safeNumberIsInteger (case c_max c of None \<Rightarrow> Finite 2147483647 | Some v \<Rightarrow> v))
   \<and> (\<not> throws (integer (Some c)) \<longrightarrow>
        integer (Some c) =
          Inr (IntegerArbitrary (case c_min c of None \<Rightarrow> Finite (- 2147483648) | Some v \<Rightarrow> v)
                                (case c_max c of None \<Rightarrow> Finite 2147483647 | Some v \<Rightarrow> v)))
   \<and> integer None = Inr (IntegerArbitrary (Finite (- 2147483648)) (Finite 2147483647))"
proof -
  have lo: "defaulted_min c = (case c_min c of None \<Rightarrow> Finite (- 2147483648) | Some v \<Rightarrow> v)"
    by (simp add: defaulted_min_def buildCompleteIntegerConstraints_def split: option.splits)
  have hi: "defaulted_max c = (case c_max c of None \<Rightarrow> Finite 2147483647 | Some v \<Rightarrow> v)"
    by (simp add: defaulted_max_def buildCompleteIntegerConstraints_def split: option.splits)
  have b: "full_min (buildCompleteIntegerConstraints c) =
       (case c_min c of None \<Rightarrow> Finite (- (2 ^ 31)) | Some v \<Rightarrow> v)
     \<and> full_max (buildCompleteIntegerConstraints c) =
       (case c_max c of None \<Rightarrow> Finite (2 ^ 31 - 1) | Some v \<Rightarrow> v)
     \<and> Finite (- (2 ^ 31)) = Finite (- 2147483648)
     \<and> Finite (2 ^ 31 - 1) = Finite 2147483647"
    by (simp add: buildCompleteIntegerConstraints_def split: option.splits)
  have t: "throws (integer (Some c)) \<longleftrightarrow>
      number_gt (defaulted_min c) (defaulted_max c)
      \<or> \<not> safeNumberIsInteger (defaulted_min c) \<or> \<not> safeNumberIsInteger (defaulted_max c)"
    by (simp add: integer_unfold throws_def)
  have r: "\<not> throws (integer (Some c)) \<longrightarrow>
      integer (Some c) = Inr (IntegerArbitrary (defaulted_min c) (defaulted_max c))"
    by (simp add: integer_unfold throws_def)
  have n: "integer None = Inr (IntegerArbitrary (Finite (- 2147483648)) (Finite 2147483647))"
    by (simp add: integer_def empty_constraints_def buildCompleteIntegerConstraints_def)
  from b t r n show ?thesis unfolding lo hi by blast
qed

theorem integer_uses_default_bounds_witness:
  "integer (Some \<lparr>c_min = Some (Finite 65536), c_max = None\<rparr>)
     = Inr (IntegerArbitrary (Finite 65536) (Finite 2147483647))
   \<and> integer (Some \<lparr>c_min = None, c_max = Some (Finite 7)\<rparr>)
     = Inr (IntegerArbitrary (Finite (- 2147483648)) (Finite 7))
   \<and> integer None = Inr (IntegerArbitrary (Finite (- 2147483648)) (Finite 2147483647))"
proof -
  have "\<not> throws (integer (Some \<lparr>c_min = Some (Finite 65536), c_max = None\<rparr>))"
    using integer_uses_default_bounds [of "\<lparr>c_min = Some (Finite 65536), c_max = None\<rparr>"] by simp
  moreover have "\<not> throws (integer (Some \<lparr>c_min = None, c_max = Some (Finite 7)\<rparr>))"
    using integer_uses_default_bounds [of "\<lparr>c_min = None, c_max = Some (Finite 7)\<rparr>"] by simp
  ultimately show ?thesis
    using integer_uses_default_bounds [of "\<lparr>c_min = Some (Finite 65536), c_max = None\<rparr>"]
      integer_uses_default_bounds [of "\<lparr>c_min = None, c_max = Some (Finite 7)\<rparr>"]
    by simp
qed

lemmas example_defs = state_message_def main_message_def rebuild_def failing_rebuild_def
  passing_def throwing_def rejecting_def asynchronous_def short_only_def

text \<open>
  C10. \<open>integer(constraints)\<close> does not modify its argument: the object at the reference
  it was given is the same after the call as before (and so is every object that existed
  before the call; the call only allocates). The \<open>IntegerArbitrary\<close> it returns is a new
  object holding the two defaulted bounds, so whatever is later assigned to the
  constraints object, the arbitrary is unchanged.
\<close>

theorem integer_leaves_argument:
  assumes "a < length h" "h ! a = ConstraintsObject c"
  shows "\<exists>r h'. integer_in_heap (Some a) h = Some (r, h')
     \<and> h' ! a = ConstraintsObject c
     \<and> take (length h) h' = h
     \<and> (case r of
          Inl err \<Rightarrow> integer (Some c) = Inl err
        | Inr p \<Rightarrow> p < length h' \<and> p \<noteq> a
             \<and> h' ! p = ArbitraryObject (IntegerArbitrary (defaulted_min c) (defaulted_max c))
             \<and> (\<forall>ob. (h'[a := ob]) ! p = h' ! p))"
proof (cases "integer (Some c)")
  case (Inl err)
  with assms show ?thesis
    by (simp add: integer_in_heap_def alloc_def nth_append)
next
  case (Inr arb)
  then have "arb = IntegerArbitrary (defaulted_min c) (defaulted_max c)"
    by (simp add: integer_unfold split: if_splits)
  with Inr assms show ?thesis
    by (simp add: integer_in_heap_def alloc_def nth_append)
qed

theorem integer_leaves_argument_witness:
  "integer_in_heap (Some 0) [ConstraintsObject small_bounds]
     = Some (Inr 2, [ConstraintsObject small_bounds,
                     FullConstraintsObject \<lparr>full_min = Finite 1, full_max = Finite 9\<rparr>,
                     ArbitraryObject (IntegerArbitrary (Finite 1) (Finite 9))])
   \<and> ([ConstraintsObject small_bounds,
        FullConstraintsObject \<lparr>full_min = Finite 1, full_max = Finite 9\<rparr>,
        ArbitraryObject (IntegerArbitrary (Finite 1) (Finite 9))] [0 := ConstraintsObject other_bounds]) ! 2
     = ArbitraryObject (IntegerArbitrary (Finite 1) (Finite 9))"
  using integer_leaves_argument [of 0 "[ConstraintsObject small_bounds]" small_bounds]
  by (simp add: integer_in_heap_def alloc_def integer_unfold small_bounds_def
      defaulted_min_simps defaulted_max_simps buildCompleteIntegerConstraints_def)

section \<open>Properties of the worker runner\<close>

subsection \<open>One turn of the loop\<close>

lemma run_job_eq: "run_job j rt = rt\<lparr>posted := posted rt @ [response_of j]\<rparr>"
  by (cases j; cases "snd j"; simp add: postMessage_def response_of_def)

lemma fold_run_job: "fold run_job js rt = rt\<lparr>posted := posted rt @ map response_of js\<rparr>"
  by (induction js arbitrary: rt) (simp_all add: run_job_eq)

lemma run_jobs_eq: "run_jobs rt = rt\<lparr>jobs := [], posted := posted rt @ map response_of (jobs rt)\<rparr>"
  by (simp add: run_jobs_def fold_run_job)

lemma jobs_run_jobs: "jobs (run_jobs rt) = []"
  by (simp add: run_jobs_eq)

lemma runWorker_ignored:
  "targetPredicateId m \<noteq> pid \<Longrightarrow> runWorker pid pred bi m rt = (Inr (), rt)"
  by (simp add: runWorker_def)

lemma runWorker_thrown:
  "targetPredicateId m = pid \<Longrightarrow> message_inputs bi m = Inl err \<Longrightarrow>
     runWorker pid pred bi m rt = (Inl err, log_inputs m rt)"
  by (auto simp: runWorker_def message_inputs_def log_inputs_def split: Payload.splits)

lemma runWorker_started:
  "targetPredicateId m = pid \<Longrightarrow> message_inputs bi m = Inr i \<Longrightarrow>
     wrapAndRunAsPromise pred i (log_inputs m rt) = (Inr p, rt2) \<Longrightarrow>
     runWorker pid pred bi m rt = (Inr (), promise_then p (runId m) rt2)"
  by (auto simp: runWorker_def message_inputs_def log_inputs_def split: Payload.splits)

lemma jobs_step: "jobs (step pid pred bi ev rt) = []"
  by (simp add: step_def jobs_run_jobs split: event.splits prod.splits sum.splits)

lemma wrapAndRunAsPromise_eq:
  "wrapAndRunAsPromise pred i rt =
     (Inr (length (promises rt)),
      rt\<lparr>calls := calls rt @ [PredicateCall i], promises := promises rt @ [promise_of (pred i)]\<rparr>)"
  by (cases "pred i" rule: promise_of.cases)
    (simp_all add: wrapAndRunAsPromise_def call_predicate_def Promise_resolve_def Promise_reject_def
      new_promise_def)

lemma promises_log_inputs [simp]:
  "promises (log_inputs m rt) = promises rt"
  "jobs (log_inputs m rt) = jobs rt"
  "posted (log_inputs m rt) = posted rt"
  "escaped (log_inputs m rt) = escaped rt"
  by (simp_all add: log_inputs_def split: Payload.splits)

lemma runWorker_started_eq:
  assumes "targetPredicateId m = pid" "message_inputs bi m = Inr i"
  shows "runWorker pid pred bi m rt =
     (Inr (), promise_then (length (promises rt)) (runId m)
        ((log_inputs m rt)\<lparr>calls := calls (log_inputs m rt) @ [PredicateCall i],
                            promises := promises rt @ [promise_of (pred i)]\<rparr>))"
  using runWorker_started [OF assms, of pred rt, OF wrapAndRunAsPromise_eq] by simp

lemma step_settled:
  assumes "targetPredicateId m = pid" "message_inputs bi m = Inr i" "jobs rt = []"
    "promise_of (pred i) = Settled s"
  shows "step pid pred bi (Message m) rt =
     (log_inputs m rt)\<lparr>calls := calls (log_inputs m rt) @ [PredicateCall i],
                        promises := promises rt @ [Settled s],
                        jobs := [],
                        posted := posted rt @ [response_of (runId m, s)]\<rparr>"
  using assms(3,4)
  by (simp add: step_def runWorker_started_eq [OF assms(1,2)] promise_then_def run_jobs_eq)

lemma step_pending:
  assumes "targetPredicateId m = pid" "message_inputs bi m = Inr i" "jobs rt = []"
    "promise_of (pred i) = Pending []"
  shows "step pid pred bi (Message m) rt =
     (log_inputs m rt)\<lparr>calls := calls (log_inputs m rt) @ [PredicateCall i],
                        promises := promises rt @ [Pending [runId m]]\<rparr>"
  using assms(3,4)
  by (simp add: step_def runWorker_started_eq [OF assms(1,2)] promise_then_def run_jobs_eq)

lemma step_settle_last:
  assumes "jobs rt = []" "promises rt = ps @ [Pending rs]"
  shows "step pid pred bi (Settle (length ps) s) rt =
     rt\<lparr>promises := ps @ [Settled s], jobs := [], posted := posted rt @ map (\<lambda>r. response_of (r, s)) rs\<rparr>"
  using assms by (simp add: step_def settle_def run_jobs_eq comp_def)

lemma step_ignored:
  "targetPredicateId m \<noteq> pid \<Longrightarrow> jobs rt = [] \<Longrightarrow> step pid pred bi (Message m) rt = rt"
  by (simp add: step_def runWorker_ignored run_jobs_eq)

lemma step_thrown:
  "targetPredicateId m = pid \<Longrightarrow> message_inputs bi m = Inl err \<Longrightarrow> jobs rt = [] \<Longrightarrow>
     step pid pred bi (Message m) rt = (log_inputs m rt)\<lparr>escaped := escaped rt @ [err]\<rparr>"
  by (simp add: step_def runWorker_thrown run_jobs_eq)

lemma step_settle_pending:
  assumes "jobs rt = []" "k < length (promises rt)" "promises rt ! k = Pending rs"
  shows "step pid pred bi (Settle k s) rt =
     rt\<lparr>promises := (promises rt)[k := Settled s], jobs := [],
        posted := posted rt @ map (\<lambda>r. response_of (r, s)) rs\<rparr>"
  using assms by (simp add: step_def settle_def run_jobs_eq comp_def)

lemma step_settle_nothing:
  assumes "jobs rt = []" "\<not> k < length (promises rt) \<or> (\<exists>s'. promises rt ! k = Settled s')"
  shows "step pid pred bi (Settle k s) rt = rt"
  using assms by (auto simp: step_def settle_def run_jobs_eq)

lemma run_snoc: "run pid pred bi (evs @ [ev]) = serve pid pred bi ev (run pid pred bi evs)"
  by (simp add: run_def)

lemma jobs_serve: "jobs rt = [] \<Longrightarrow> jobs (serve pid pred bi ev rt) = []"
  by (simp add: serve_def jobs_step)

lemma jobs_run: "jobs (run pid pred bi evs) = []"
proof (induction evs rule: rev_induct)
  case Nil
  show ?case by (simp add: run_def initial_def)
next
  case (snoc ev evs)
  then show ?case by (simp add: run_snoc jobs_serve)
qed

lemma run_single: "run pid pred bi [ev] = step pid pred bi ev initial"
  by (simp add: run_def serve_def initial_def)

lemma calls_promise_then [simp]:
  "calls (promise_then p r rt) = calls rt"
  "posted (promise_then p r rt) = posted rt"
  "escaped (promise_then p r rt) = escaped rt"
  by (simp_all add: promise_then_def split: promise_state.splits)

text \<open>
  C4. On a message whose \<open>targetPredicateId\<close> differs from the registered
  \<open>predicateId\<close> the listener returns normally and leaves the state as it was: nothing is
  added to the log of calls (neither \<open>predicate\<close> nor \<open>buildInputs\<close> is invoked),
  nothing is posted, no exception escapes. A trace with such a message at its end leaves
  the worker where the trace without it does.
\<close>

theorem runWorker_ignores_other_predicate:
  "targetPredicateId m \<noteq> pid \<Longrightarrow>
     runWorker pid pred bi m rt = (Inr (), rt)
     \<and> run pid pred bi (evs @ [Message m]) = run pid pred bi evs"
  by (simp add: runWorker_ignored run_snoc serve_def step_ignored jobs_run)

theorem runWorker_ignores_other_predicate_witness:
  "runWorker 2 throwing failing_rebuild (state_message 100) initial = (Inr (), initial)
   \<and> run 2 throwing failing_rebuild ([Message (main_message 5)] @ [Message (state_message 100)])
       = run 2 throwing failing_rebuild [Message (main_message 5)]"
  using runWorker_ignores_other_predicate [of "state_message 100" 2 throwing failing_rebuild initial
      "[Message (main_message 5)]"]
  by (simp add: state_message_def)

text \<open>
  C5. For an accepted message the inputs are chosen by the source of the payload. With
  \<open>source: 'main'\<close> the one call of the predicate is on \<open>payload.value\<close>, and the promise
  the reaction is registered on is the one of the predicate's result on \<open>payload.value\<close>.
  With \<open>source: 'state'\<close> \<open>buildInputs\<close> is called on the payload, the one call of the
  predicate is on the inputs it returned, and the promise is the one of the predicate's
  result on these inputs (when \<open>buildInputs\<close> throws, the predicate is not called at
  all). So what is posted for the message is decided by the predicate on exactly these
  inputs.
\<close>

theorem runWorker_inputs_by_source:
  "targetPredicateId m = pid \<Longrightarrow>
     (payload m = Main v \<longrightarrow>
        runWorker pid pred bi m rt
          = (Inr (), promise_then (length (promises rt)) (runId m)
               (rt\<lparr>calls := calls rt @ [PredicateCall v],
                    promises := promises rt @ [promise_of (pred v)]\<rparr>))
        \<and> calls (snd (runWorker pid pred bi m rt)) = calls rt @ [PredicateCall v]
        \<and> (jobs rt = [] \<longrightarrow>
             posted (step pid pred bi (Message m) rt)
               = posted rt @ (case promise_of (pred v) of
                                Pending _ \<Rightarrow> [] | Settled s \<Rightarrow> [response_of (runId m, s)])))
   \<and> (payload m = State st \<and> bi st = Inr i \<longrightarrow>
        runWorker pid pred bi m rt
          = (Inr (), promise_then (length (promises rt)) (runId m)
               (rt\<lparr>calls := calls rt @ [BuildInputsCall st, PredicateCall i],
                    promises := promises rt @ [promise_of (pred i)]\<rparr>))
        \<and> calls (snd (runWorker pid pred bi m rt)) = calls rt @ [BuildInputsCall st, PredicateCall i]
        \<and> (jobs rt = [] \<longrightarrow>
             posted (step pid pred bi (Message m) rt)
               = posted rt @ (case promise_of (pred i) of
                                Pending _ \<Rightarrow> [] | Settled s \<Rightarrow> [response_of (runId m, s)])))
   \<and> (payload m = State st \<and> bi st = Inl err \<longrightarrow>
        runWorker pid pred bi m rt = (Inl err, rt\<lparr>calls := calls rt @ [BuildInputsCall st]\<rparr>))"
proof -
  assume acc: "targetPredicateId m = pid"
  have post: "posted (step pid pred bi (Message m) rt)
       = posted rt @ (case promise_of (pred x) of
                        Pending _ \<Rightarrow> [] | Settled s \<Rightarrow> [response_of (runId m, s)])"
    if mi: "message_inputs bi m = Inr x" and j: "jobs rt = []" for x
  proof (cases "promise_of (pred x)")
    case (Settled s)
    then show ?thesis
      by (simp add: step_settled [where pred = pred, OF acc mi j Settled])
  next
    case (Pending rs)
    then have p: "promise_of (pred x) = Pending []"
      by (cases "pred x" rule: promise_of.cases) simp_all
    then show ?thesis
      by (simp add: step_pending [where pred = pred, OF acc mi j p])
  qed
  have main: "runWorker pid pred bi m rt
          = (Inr (), promise_then (length (promises rt)) (runId m)
               (rt\<lparr>calls := calls rt @ [PredicateCall v],
                    promises := promises rt @ [promise_of (pred v)]\<rparr>))
        \<and> calls (snd (runWorker pid pred bi m rt)) = calls rt @ [PredicateCall v]
        \<and> (jobs rt = [] \<longrightarrow>
             posted (step pid pred bi (Message m) rt)
               = posted rt @ (case promise_of (pred v) of
                                Pending _ \<Rightarrow> [] | Settled s \<Rightarrow> [response_of (runId m, s)]))"
    if "payload m = Main v"
  proof -
    from that have mi: "message_inputs bi m = Inr v" by (simp add: message_inputs_def)
    from that acc have "runWorker pid pred bi m rt
          = (Inr (), promise_then (length (promises rt)) (runId m)
               (rt\<lparr>calls := calls rt @ [PredicateCall v],
                    promises := promises rt @ [promise_of (pred v)]\<rparr>))"
      by (simp add: runWorker_def wrapAndRunAsPromise_eq)
    then show ?thesis using post [OF mi] by simp
  qed
  have state: "runWorker pid pred bi m rt
          = (Inr (), promise_then (length (promises rt)) (runId m)
               (rt\<lparr>calls := calls rt @ [BuildInputsCall st, PredicateCall i],
                    promises := promises rt @ [promise_of (pred i)]\<rparr>))
        \<and> calls (snd (runWorker pid pred bi m rt)) = calls rt @ [BuildInputsCall st, PredicateCall i]
        \<and> (jobs rt = [] \<longrightarrow>
             posted (step pid pred bi (Message m) rt)
               = posted rt @ (case promise_of (pred i) of
                                Pending _ \<Rightarrow> [] | Settled s \<Rightarrow> [response_of (runId m, s)]))"
    if "payload m = State st" "bi st = Inr i"
  proof -
    from that have mi: "message_inputs bi m = Inr i" by (simp add: message_inputs_def)
    from that acc have "runWorker pid pred bi m rt
          = (Inr (), promise_then (length (promises rt)) (runId m)
               (rt\<lparr>calls := calls rt @ [BuildInputsCall st, PredicateCall i],
                    promises := promises rt @ [promise_of (pred i)]\<rparr>))"
      by (simp add: runWorker_def wrapAndRunAsPromise_eq)
    then show ?thesis using post [OF mi] by simp
  qed
  have thrown: "runWorker pid pred bi m rt = (Inl err, rt\<lparr>calls := calls rt @ [BuildInputsCall st]\<rparr>)"
    if "payload m = State st" "bi st = Inl err"
    using that acc by (simp add: runWorker_def)
  from main state thrown show ?thesis by blast
qed

theorem runWorker_inputs_by_source_witness:
  "calls (snd (runWorker 1 short_only rebuild (main_message 100) initial)) = [PredicateCall [3, 4]]
   \<and> posted (step 1 short_only rebuild (Message (main_message 100)) initial)
       = [Failure ''too long'' 100]
   \<and> calls (snd (runWorker 1 short_only rebuild (state_message 100) initial))
       = [BuildInputsCall 7, PredicateCall [7]]
   \<and> posted (step 1 short_only rebuild (Message (state_message 100)) initial)
       = [Success (Boolean True) 100]"
  using runWorker_inputs_by_source [of "main_message 100" 1 "[3, 4]" short_only rebuild initial 7 "[7]" "''none''"]
    runWorker_inputs_by_source [of "state_message 100" 1 "[3, 4]" short_only rebuild initial 7 "[7]" "''none''"]
  by (simp add: state_message_def main_message_def rebuild_def initial_def short_only_def response_of_def)

text \<open>
  C8. A message is its three fields \<open>payload\<close>, \<open>targetPredicateId\<close> (the identity of
  the predicate it is meant for) and \<open>runId\<close>; and the listener ignores the message
  (returns with the state untouched, having called nothing) exactly when its
  \<open>targetPredicateId\<close> differs from the registered id, whatever the other fields, the
  predicate, the input builder and the state are.
\<close>

theorem runWorker_accepts_iff:
  "m = \<lparr>payload = payload m, targetPredicateId = targetPredicateId m, runId = runId m\<rparr>
   \<and> (runWorker pid pred bi m rt = (Inr (), rt) \<longleftrightarrow> targetPredicateId m \<noteq> pid)
   \<and> (calls (snd (runWorker pid pred bi m rt)) = calls rt \<longleftrightarrow> targetPredicateId m \<noteq> pid)"
proof -
  have c: "calls (snd (runWorker pid pred bi m rt)) \<noteq> calls rt" if "targetPredicateId m = pid"
  proof (cases "message_inputs bi m")
    case (Inl err)
    then obtain st where "payload m = State st"
      by (cases "payload m") (simp_all add: message_inputs_def)
    then show ?thesis
      by (simp add: runWorker_thrown [OF that Inl] log_inputs_def)
  next
    case (Inr i)
    show ?thesis
      by (cases "payload m") (simp_all add: runWorker_started_eq [OF that Inr] log_inputs_def)
  qed
  then have "runWorker pid pred bi m rt \<noteq> (Inr (), rt)" if "targetPredicateId m = pid"
    using that by (metis snd_conv)
  with c show ?thesis
    by (auto simp: runWorker_ignored)
qed

theorem runWorker_accepts_iff_witness:
  "runWorker 2 passing rebuild (state_message 100) initial = (Inr (), initial)
   \<and> runWorker 1 passing rebuild (state_message 100) initial \<noteq> (Inr (), initial)"
  using runWorker_accepts_iff [of "state_message 100" 2 passing rebuild initial]
    runWorker_accepts_iff [of "state_message 100" 1 passing rebuild initial]
  by (simp add: state_message_def)

subsection \<open>One event of the loop\<close>

text \<open>
  C2. For the same inputs and the same error \<open>err\<close>, a predicate that throws \<open>err\<close>
  and a predicate that returns a promise rejected with \<open>err\<close> make the worker post the
  same response \<open>{ success: false, error: err, runId }\<close> (the whole state of the worker
  is the same after the two), and so does a predicate whose promise is pending at first
  and rejected with \<open>err\<close> later. No exception leaves \<open>wrapAndRunAsPromise\<close> or the
  listener in either case.
\<close>

theorem throw_same_as_rejection:
  assumes "targetPredicateId m = pid" and "message_inputs bi m = Inr i" and "jobs rt = []"
    and "throwing_p i = Throws err"
    and "rejecting_p i = ReturnsPromise (Some (Rejected err))"
    and "pending_p i = ReturnsPromise None"
  shows "posted (step pid throwing_p bi (Message m) rt) = posted rt @ [Failure err (runId m)]
    \<and> posted (step pid rejecting_p bi (Message m) rt) = posted rt @ [Failure err (runId m)]
    \<and> step pid throwing_p bi (Message m) rt = step pid rejecting_p bi (Message m) rt
    \<and> posted (step pid pending_p bi (Settle (length (promises rt)) (Rejected err))
                (step pid pending_p bi (Message m) rt)) = posted rt @ [Failure err (runId m)]
    \<and> escaped (step pid throwing_p bi (Message m) rt) = escaped rt
    \<and> escaped (step pid rejecting_p bi (Message m) rt) = escaped rt
    \<and> (\<exists>p rt'. wrapAndRunAsPromise throwing_p i rt = (Inr p, rt'))
    \<and> (\<exists>p rt'. wrapAndRunAsPromise rejecting_p i rt = (Inr p, rt'))"
proof -
  have t: "promise_of (throwing_p i) = Settled (Rejected err)"
    and r: "promise_of (rejecting_p i) = Settled (Rejected err)"
    and q: "promise_of (pending_p i) = Pending []"
    using assms(4-6) by simp_all
  note a = assms(1-3)
  have st: "step pid throwing_p bi (Message m) rt = step pid rejecting_p bi (Message m) rt"
    by (simp add: step_settled [where pred = throwing_p, OF a t]
        step_settled [where pred = rejecting_p, OF a r])
  have pt: "posted (step pid throwing_p bi (Message m) rt) = posted rt @ [Failure err (runId m)]"
    by (simp add: step_settled [where pred = throwing_p, OF a t] response_of_def)
  have et: "escaped (step pid throwing_p bi (Message m) rt) = escaped rt"
    by (simp add: step_settled [where pred = throwing_p, OF a t])
  let ?rt1 = "step pid pending_p bi (Message m) rt"
  have rt1: "?rt1 = (log_inputs m rt)\<lparr>calls := calls (log_inputs m rt) @ [PredicateCall i],
                        promises := promises rt @ [Pending [runId m]]\<rparr>"
    by (rule step_pending [where pred = pending_p, OF a q])
  have "jobs ?rt1 = []" "promises ?rt1 = promises rt @ [Pending [runId m]]" "posted ?rt1 = posted rt"
    using assms(3) by (simp_all add: rt1)
  then have pp: "posted (step pid pending_p bi (Settle (length (promises rt)) (Rejected err)) ?rt1)
      = posted rt @ [Failure err (runId m)]"
    by (simp add: step_settle_last [of ?rt1 "promises rt" "[runId m]"] response_of_def)
  show ?thesis
    using st pt et pp by (simp add: wrapAndRunAsPromise_eq)
qed

theorem throw_same_as_rejection_witness:
  "posted (step 1 throwing rebuild (Message (state_message 100)) initial) = [Failure ''boom'' 100]
   \<and> posted (step 1 rejecting rebuild (Message (state_message 100)) initial) = [Failure ''boom'' 100]
   \<and> posted (step 1 asynchronous rebuild (Settle 0 (Rejected ''boom''))
        (step 1 asynchronous rebuild (Message (state_message 100)) initial)) = [Failure ''boom'' 100]"
  using throw_same_as_rejection [of "state_message 100" 1 rebuild "[7]" initial throwing "''boom''"
      rejecting asynchronous]
  by (simp add: example_defs message_inputs_def initial_def)

text \<open>
  C6. A worker registered for predicate \<open>1\<close> receives
  \<open>{ targetPredicateId: 1, runId: 100, payload: { source: 'state', ... } }\<close>; the inputs are
  rebuilt and the predicate settles successfully on them with \<open>undefined\<close> (it returns
  \<open>undefined\<close>, or a promise fulfilled with it, at once or later). The worker posts
  exactly \<open>{ success: true, output: undefined, runId: 100 }\<close>.
\<close>

theorem scenario_state_payload_success:
  assumes "(bi :: 's \<Rightarrow> 'e + 'i) st = Inr i"
  shows "(pred i = Returns Undefined \<or> pred i = ReturnsPromise (Some (Fulfilled Undefined)) \<longrightarrow>
       posted (run 1 pred bi [Message \<lparr>payload = State st, targetPredicateId = 1, runId = 100\<rparr>])
         = [Success Undefined 100])
   \<and> (pred i = ReturnsPromise None \<longrightarrow>
       posted (run 1 pred bi [Message \<lparr>payload = State st, targetPredicateId = 1, runId = 100\<rparr>]) = []
       \<and> posted (run 1 pred bi [Message \<lparr>payload = State st, targetPredicateId = 1, runId = 100\<rparr>,
                                 Settle 0 (Fulfilled Undefined)])
         = [Success Undefined 100])"
proof -
  let ?m = "\<lparr>payload = State st, targetPredicateId = 1, runId = 100\<rparr> :: ('i, 's) MainThreadToWorkerMessage"
  have a: "targetPredicateId ?m = 1" "message_inputs bi ?m = Inr i" "jobs (initial :: ('i, 's, 'e) runtime) = []"
    using assms by (simp_all add: message_inputs_def initial_def)
  have r1: "run 1 pred bi [Message ?m] = step 1 pred bi (Message ?m) initial"
    by (rule run_single)
  have r2: "run 1 pred bi [Message ?m, Settle 0 (Fulfilled Undefined)]
      = step 1 pred bi (Settle 0 (Fulfilled Undefined)) (step 1 pred bi (Message ?m) initial)"
    if "escaped (step 1 pred bi (Message ?m) initial) = []"
    using that run_snoc [of 1 pred bi "[Message ?m]" "Settle 0 (Fulfilled Undefined)"]
    by (simp add: run_single serve_def)
  have s: "posted (run 1 pred bi [Message ?m]) = [Success Undefined 100]"
    if "promise_of (pred i) = Settled (Fulfilled Undefined)"
    unfolding r1 step_settled [where pred = pred, OF a that]
    by (simp add: response_of_def initial_def)
  have p: "posted (run 1 pred bi [Message ?m]) = []
      \<and> posted (run 1 pred bi [Message ?m, Settle 0 (Fulfilled Undefined)]) = [Success Undefined 100]"
    if "promise_of (pred i) = Pending []"
  proof -
    let ?rt1 = "step 1 pred bi (Message ?m) initial"
    have f: "jobs ?rt1 = []" "promises ?rt1 = [] @ [Pending [100]]" "posted ?rt1 = []"
      "escaped ?rt1 = []"
      unfolding step_pending [where pred = pred, OF a that]
      by (simp_all add: initial_def)
    then show ?thesis
      unfolding r1 r2 [OF f(4)]
      using step_settle_last [of ?rt1 "[]" "[100]" 1 pred bi "Fulfilled Undefined"]
      by (simp add: response_of_def)
  qed
  show ?thesis using s p by auto
qed

theorem scenario_state_payload_success_witness:
  "posted (run 1 passing rebuild [Message \<lparr>payload = State 7, targetPredicateId = 1, runId = 100\<rparr>])
     = [Success Undefined 100]
   \<and> posted (run 1 asynchronous rebuild
        [Message \<lparr>payload = State 7, targetPredicateId = 1, runId = 100\<rparr>,
         Settle 0 (Fulfilled Undefined)])
     = [Success Undefined 100]"
  using scenario_state_payload_success [of rebuild 7 "[7]" passing]
    scenario_state_payload_success [of rebuild 7 "[7]" asynchronous]
  by (simp add: example_defs)

subsection \<open>An exception of \<open>buildInputs\<close>\<close>

text \<open>
  C9. When an accepted message has a \<open>state\<close> payload and \<open>buildInputs\<close> throws, the
  exception leaves the listener: the result of the listener is the exception, not a
  response with \<open>success: false\<close>. The predicate is not called, nothing is posted for the
  message, and no reaction is left behind that could post for it later (the promises and
  the queue of jobs are as before). In a worker that was running, the exception is the
  one that escaped.
\<close>

theorem buildInputs_throw_escapes:
  assumes "targetPredicateId m = pid" "payload m = State st" "bi st = Inl err"
  shows "runWorker pid pred bi m rt = (Inl err, rt\<lparr>calls := calls rt @ [BuildInputsCall st]\<rparr>)
    \<and> posted (run pid pred bi (evs @ [Message m])) = posted (run pid pred bi evs)
    \<and> promises (run pid pred bi (evs @ [Message m])) = promises (run pid pred bi evs)
    \<and> jobs (run pid pred bi (evs @ [Message m])) = []
    \<and> (escaped (run pid pred bi evs) = [] \<longrightarrow>
         escaped (run pid pred bi (evs @ [Message m])) = [err])"
proof -
  from assms have mi: "message_inputs bi m = Inl err" by (simp add: message_inputs_def)
  have li: "log_inputs m rt = rt\<lparr>calls := calls rt @ [BuildInputsCall st]\<rparr>"
    using assms(2) by (simp add: log_inputs_def)
  have st: "step pid pred bi (Message m) (run pid pred bi evs)
      = (log_inputs m (run pid pred bi evs))\<lparr>escaped := escaped (run pid pred bi evs) @ [err]\<rparr>"
    using assms(1) mi jobs_run by (rule step_thrown)
  have "runWorker pid pred bi m rt = (Inl err, rt\<lparr>calls := calls rt @ [BuildInputsCall st]\<rparr>)"
    using runWorker_thrown [OF assms(1) mi, of pred rt] by (simp add: li)
  moreover have "posted (run pid pred bi (evs @ [Message m])) = posted (run pid pred bi evs)"
    by (simp add: run_snoc serve_def st)
  moreover have "promises (run pid pred bi (evs @ [Message m])) = promises (run pid pred bi evs)"
    by (simp add: run_snoc serve_def st)
  moreover have "jobs (run pid pred bi (evs @ [Message m])) = []"
    by (rule jobs_run)
  moreover have "escaped (run pid pred bi evs) = [] \<longrightarrow>
         escaped (run pid pred bi (evs @ [Message m])) = [err]"
    by (simp add: run_snoc serve_def st)
  ultimately show ?thesis by blast
qed

theorem buildInputs_throw_escapes_witness:
  "runWorker 1 passing failing_rebuild (state_message 100) initial
     = (Inl ''cannot rebuild'', initial\<lparr>calls := [BuildInputsCall 7]\<rparr>)
   \<and> posted (run 1 passing failing_rebuild ([Message (main_message 5)] @ [Message (state_message 100)]))
     = [Success Undefined 5]
   \<and> escaped (run 1 passing failing_rebuild ([Message (main_message 5)] @ [Message (state_message 100)]))
     = [''cannot rebuild'']"
proof -
  have "run 1 passing failing_rebuild [Message (main_message 5)]
      = \<lparr>promises = [Settled (Fulfilled Undefined)], jobs = [], posted = [Success Undefined 5],
         calls = [PredicateCall [3, 4]], escaped = []\<rparr>"
    by code_simp
  with buildInputs_throw_escapes [of "state_message 100" 1 7 failing_rebuild "''cannot rebuild''"
      passing initial "[Message (main_message 5)]"]
  show ?thesis
    by (simp add: state_message_def failing_rebuild_def initial_def)
qed

subsection \<open>Every run is answered once, by its own outcome\<close>

lemma promise_of_Pending: "promise_of x = Pending rs \<Longrightarrow> rs = []"
  by (cases x rule: promise_of.cases) simp_all

lemma answer_append:
  "k < length ps \<Longrightarrow> length ps = length runs \<Longrightarrow> answer (ps @ [x]) (runs @ [y]) k = answer ps runs k"
  by (simp add: answer_def nth_append split: promise_state.splits)

lemma own_promise_append:
  "k < length ps \<Longrightarrow> length ps = length runs \<Longrightarrow>
     own_promise pred evs (runs @ [y]) (ps @ [x]) k = own_promise pred evs runs ps k"
  by (simp add: own_promise_def nth_append split: promise_state.splits)

lemma answer_last:
  "length ps = length runs \<Longrightarrow>
     answer (ps @ [x]) (runs @ [(r, i)]) (length runs)
       = (case x of Pending _ \<Rightarrow> None | Settled s \<Rightarrow> Some (response_of (r, s)))"
  by (simp add: answer_def nth_append split: promise_state.splits)

lemma answer_update_other:
  "j \<noteq> k \<Longrightarrow> answer (ps[k := x]) runs j = answer ps runs j"
  by (simp add: answer_def)

lemma own_promise_update_other:
  "j \<noteq> k \<Longrightarrow> own_promise pred evs runs (ps[k := x]) j = own_promise pred evs runs ps j"
  by (simp add: own_promise_def)

lemma own_promise_more_events:
  "own_promise pred evs runs ps k \<Longrightarrow> own_promise pred (evs @ [ev]) runs ps k"
  by (auto simp: own_promise_def split: promise_state.splits)

lemma ledger_more_events:
  "ledger pred evs runs rt order \<Longrightarrow> ledger pred (evs @ [ev]) runs rt order"
  by (simp add: ledger_def own_promise_more_events)

lemma ledger_order_bound: "ledger pred evs runs rt order \<Longrightarrow> k \<in> set order \<Longrightarrow> k < length runs"
  by (simp add: ledger_def)

lemma ledger_new_run:
  assumes l: "ledger pred evs runs rt order"
    and p: "promises rt' = promises rt @ [x]"
    and x: "x = promise_of (pred i) \<and> x \<noteq> Pending [] \<or> x = Pending [r] \<and> promise_of (pred i) = Pending []"
    and po: "posted rt' = posted rt @ (case x of Pending _ \<Rightarrow> [] | Settled s \<Rightarrow> [response_of (r, s)])"
    and j: "jobs rt' = []" and e: "escaped rt' = []"
  shows "ledger pred evs (runs @ [(r, i)]) rt'
           (order @ (case x of Pending _ \<Rightarrow> [] | Settled s \<Rightarrow> [length runs]))"
proof -
  let ?n = "length runs"
  let ?runs = "runs @ [(r, i)]"
  from l have len: "length (promises rt) = ?n" by (simp add: ledger_def)
  have old_a: "answer (promises rt') ?runs k = answer (promises rt) runs k" if "k < ?n" for k
    using that len by (simp add: p answer_append)
  have old_o: "own_promise pred evs ?runs (promises rt') k = own_promise pred evs runs (promises rt) k"
    if "k < ?n" for k
    using that len by (simp add: p own_promise_append)
  have new_a: "answer (promises rt') ?runs ?n
      = (case x of Pending _ \<Rightarrow> None | Settled s \<Rightarrow> Some (response_of (r, s)))"
    using len by (simp add: p answer_last)
  have new_o: "own_promise pred evs ?runs (promises rt') ?n"
  proof (cases x)
    case (Pending rs)
    have "\<not> (x = promise_of (pred i) \<and> x \<noteq> Pending [])"
    proof
      assume a: "x = promise_of (pred i) \<and> x \<noteq> Pending []"
      with Pending have "promise_of (pred i) = Pending rs" by simp
      then have "rs = []" by (rule promise_of_Pending)
      with a Pending show False by simp
    qed
    with x Pending have "rs = [r]" "promise_of (pred i) = Pending []"
      by auto
    with Pending len show ?thesis by (simp add: own_promise_def p nth_append)
  next
    case (Settled s)
    with x have "promise_of (pred i) = Settled s" by auto
    with Settled len show ?thesis by (simp add: own_promise_def p nth_append)
  qed
  have own: "\<forall>k<length ?runs. own_promise pred evs ?runs (promises rt') k"
  proof (intro allI impI)
    fix k assume "k < length ?runs"
    then consider "k < ?n" | "k = ?n" by force
    then show "own_promise pred evs ?runs (promises rt') k"
    proof cases
      case 1
      with l old_o show ?thesis by (simp add: ledger_def)
    next
      case 2
      with new_o show ?thesis by simp
    qed
  qed
  have ob: "\<forall>k \<in> set order. k < ?n"
    using l by (simp add: ledger_def)
  then have map_old: "map (answer (promises rt') ?runs) order = map (answer (promises rt) runs) order"
    by (intro map_cong refl old_a) simp
  have set_old: "{k. k < ?n \<and> answer (promises rt') ?runs k \<noteq> None} = set order"
    using l old_a by (auto simp: ledger_def)
  have less_Suc: "{k. k < length ?runs \<and> P k} = {k. k < ?n \<and> P k} \<union> (if P ?n then {?n} else {})" for P
    by (auto simp: less_Suc_eq)
  show ?thesis
  proof (cases x)
    case (Pending rs)
    with new_a have "answer (promises rt') ?runs ?n = None" by simp
    then have "{k. k < length ?runs \<and> answer (promises rt') ?runs k \<noteq> None} = set order"
      unfolding less_Suc [of "\<lambda>k. answer (promises rt') ?runs k \<noteq> None"] set_old by simp
    with l own map_old Pending po j e len show ?thesis
      by (simp add: ledger_def p)
  next
    case (Settled s)
    with new_a have na: "answer (promises rt') ?runs ?n = Some (response_of (r, s))" by simp
    then have "{k. k < length ?runs \<and> answer (promises rt') ?runs k \<noteq> None} = set order \<union> {?n}"
      unfolding less_Suc [of "\<lambda>k. answer (promises rt') ?runs k \<noteq> None"] set_old by simp
    moreover have "?n \<notin> set order" using ob by auto
    ultimately show ?thesis
      using l own map_old Settled po j e len na
      by (simp add: ledger_def p)
  qed
qed

lemma ledger_new_settled:
  assumes "ledger pred evs runs rt order"
    and "promises rt' = promises rt @ [Settled s]"
    and "promise_of (pred i) = Settled s"
    and "posted rt' = posted rt @ [response_of (r, s)]"
    and "jobs rt' = []" and "escaped rt' = []"
  shows "ledger pred evs (runs @ [(r, i)]) rt' (order @ [length runs])"
  using ledger_new_run [OF assms(1,2), of i r] assms(3-6) by simp

lemma ledger_new_pending:
  assumes "ledger pred evs runs rt order"
    and "promises rt' = promises rt @ [Pending [r]]"
    and "promise_of (pred i) = Pending []"
    and "posted rt' = posted rt"
    and "jobs rt' = []" and "escaped rt' = []"
  shows "ledger pred evs (runs @ [(r, i)]) rt' order"
  using ledger_new_run [OF assms(1,2), of i r] assms(3-6) by simp

lemma ledger_settle:
  assumes l: "ledger pred evs runs rt order"
    and k: "k < length (promises rt)" and pk: "promises rt ! k = Pending rs"
    and p: "promises rt' = (promises rt)[k := Settled s]"
    and po: "posted rt' = posted rt @ map (\<lambda>r. response_of (r, s)) rs"
    and j: "jobs rt' = []" and e: "escaped rt' = []"
  shows "ledger pred (evs @ [Settle k s]) runs rt' (order @ [k])"
proof -
  let ?n = "length runs"
  from l have len: "length (promises rt) = ?n" by (simp add: ledger_def)
  with k have kn: "k < ?n" by simp
  from l kn have "own_promise pred evs runs (promises rt) k" by (simp add: ledger_def)
  with pk have rs: "rs = [fst (runs ! k)]" and pend: "promise_of (pred (snd (runs ! k))) = Pending []"
    by (simp_all add: own_promise_def)
  have ak_old: "answer (promises rt) runs k = None" using pk by (simp add: answer_def)
  have ak_new: "answer (promises rt') runs k = Some (response_of (fst (runs ! k), s))"
    using k by (simp add: answer_def p)
  have a_other: "answer (promises rt') runs j = answer (promises rt) runs j" if "j \<noteq> k" for j
    using that by (simp add: p answer_update_other)
  from l ak_old have knotin: "k \<notin> set order" by (auto simp: ledger_def)
  then have map_old: "map (answer (promises rt') runs) order = map (answer (promises rt) runs) order"
    by (intro map_cong refl a_other) auto
  have set_new: "{j. j < ?n \<and> answer (promises rt') runs j \<noteq> None} = set order \<union> {k}"
  proof -
    have "{j. j < ?n \<and> answer (promises rt) runs j \<noteq> None} = set order"
      using l by (simp add: ledger_def)
    then have "{j. j < ?n \<and> answer (promises rt') runs j \<noteq> None}
        = {j. j < ?n \<and> (j = k \<or> j \<in> set order)}"
      using ak_new ak_old a_other by (intro Collect_cong) (metis (mono_tags, lifting) mem_Collect_eq option.simps(3))
    also have "\<dots> = set order \<union> {k}"
      using kn l by (auto simp: ledger_def)
    finally show ?thesis .
  qed
  have own: "\<forall>j<?n. own_promise pred (evs @ [Settle k s]) runs (promises rt') j"
  proof (intro allI impI)
    fix j assume jn: "j < ?n"
    show "own_promise pred (evs @ [Settle k s]) runs (promises rt') j"
    proof (cases "j = k")
      case True
      with k pend show ?thesis by (simp add: own_promise_def p)
    next
      case False
      from l jn have "own_promise pred evs runs (promises rt) j" by (simp add: ledger_def)
      then have "own_promise pred (evs @ [Settle k s]) runs (promises rt) j"
        by (rule own_promise_more_events)
      with False show ?thesis by (simp add: p own_promise_update_other)
    qed
  qed
  from l own map_old set_new knotin ak_new po rs j e len show ?thesis
    by (simp add: ledger_def p)
qed

lemma started_runs_snoc:
  "started_runs pid bi (evs @ [ev]) = started_runs pid bi evs @ started_run pid bi ev"
  by (simp add: started_runs_def)

lemma started_runs_accepted:
  "\<forall>ev \<in> set evs. \<not> thrower pid bi ev \<Longrightarrow>
     map fst (started_runs pid bi evs) = map event_runId (filter (accepted pid) evs)"
proof (induction evs)
  case Nil
  show ?case by (simp add: started_runs_def)
next
  case (Cons ev evs)
  then have ih: "map fst (started_runs pid bi evs) = map event_runId (filter (accepted pid) evs)"
    by simp
  from Cons.prems have nt: "\<not> thrower pid bi ev" by simp
  have "map fst (started_run pid bi ev) = map event_runId (filter (accepted pid) [ev])"
    using nt by (cases ev) (auto simp: accepted_def split: sum.splits)
  with ih show ?case by (simp add: started_runs_def)
qed

lemma ledger_initial: "ledger pred [] [] initial []"
  by (simp add: ledger_def initial_def)

lemma ledger_run:
  assumes "\<forall>ev \<in> set evs. \<not> thrower pid bi ev"
  shows "\<exists>order. ledger pred evs (started_runs pid bi evs) (run pid pred bi evs) order"
  using assms
proof (induction evs rule: rev_induct)
  case Nil
  have "ledger pred [] (started_runs pid bi []) (run pid pred bi []) []"
    using ledger_initial [of pred] by (simp add: started_runs_def run_def)
  then show ?case ..
next
  case (snoc ev evs)
  let ?rt = "run pid pred bi evs"
  let ?runs = "started_runs pid bi evs"
  from snoc.prems have nt: "\<not> thrower pid bi ev" by simp
  from snoc obtain order where l: "ledger pred evs ?runs ?rt order" by auto
  then have j: "jobs ?rt = []" and e: "escaped ?rt = []" and len: "length (promises ?rt) = length ?runs"
    by (simp_all add: ledger_def)
  have r: "run pid pred bi (evs @ [ev]) = step pid pred bi ev ?rt"
    using e by (simp add: run_snoc serve_def)
  show ?case
  proof (cases ev)
    case (Settle k s)
    have sr: "started_runs pid bi (evs @ [ev]) = ?runs"
      using Settle by (simp add: started_runs_snoc)
    show ?thesis
    proof (cases "k < length (promises ?rt) \<and> (\<exists>rs. promises ?rt ! k = Pending rs)")
      case True
      then obtain rs where k: "k < length (promises ?rt)" and pk: "promises ?rt ! k = Pending rs"
        by auto
      let ?rt' = "step pid pred bi (Settle k s) ?rt"
      have st: "?rt' = ?rt\<lparr>promises := (promises ?rt)[k := Settled s], jobs := [],
          posted := posted ?rt @ map (\<lambda>r. response_of (r, s)) rs\<rparr>"
        using j k pk by (rule step_settle_pending)
      have "ledger pred (evs @ [Settle k s]) ?runs ?rt' (order @ [k])"
        using l k pk
      proof (rule ledger_settle)
        show "promises ?rt' = (promises ?rt)[k := Settled s]" by (simp add: st)
        show "posted ?rt' = posted ?rt @ map (\<lambda>r. response_of (r, s)) rs" by (simp add: st)
        show "jobs ?rt' = []" by (simp add: st)
        show "escaped ?rt' = []" using e by (simp add: st)
      qed
      then show ?thesis unfolding r sr unfolding Settle ..
    next
      case False
      then have "\<not> k < length (promises ?rt) \<or> (\<exists>s'. promises ?rt ! k = Settled s')"
        by (cases "promises ?rt ! k") auto
      with j have "step pid pred bi (Settle k s) ?rt = ?rt" by (rule step_settle_nothing)
      moreover from l have "ledger pred (evs @ [ev]) ?runs ?rt order" by (rule ledger_more_events)
      ultimately show ?thesis unfolding r sr unfolding Settle by auto
    qed
  next
    case (Message m)
    show ?thesis
    proof (cases "targetPredicateId m = pid")
      case False
      then have sr: "started_runs pid bi (evs @ [ev]) = ?runs"
        using Message by (simp add: started_runs_snoc)
      from False j have "step pid pred bi (Message m) ?rt = ?rt" by (rule step_ignored)
      moreover from l have "ledger pred (evs @ [ev]) ?runs ?rt order" by (rule ledger_more_events)
      ultimately show ?thesis unfolding r sr unfolding Message by auto
    next
      case True
      with nt Message obtain i where mi: "message_inputs bi m = Inr i"
        by (cases "message_inputs bi m") auto
      with True Message have sr: "started_runs pid bi (evs @ [ev]) = ?runs @ [(runId m, i)]"
        by (simp add: started_runs_snoc)
      let ?rt' = "step pid pred bi (Message m) ?rt"
      show ?thesis
      proof (cases "promise_of (pred i)")
        case (Settled s)
        have st: "?rt' = (log_inputs m ?rt)\<lparr>calls := calls (log_inputs m ?rt) @ [PredicateCall i],
                        promises := promises ?rt @ [Settled s], jobs := [],
                        posted := posted ?rt @ [response_of (runId m, s)]\<rparr>"
          using True mi j Settled by (rule step_settled)
        have "ledger pred evs (?runs @ [(runId m, i)]) ?rt' (order @ [length ?runs])"
          using l
        proof (rule ledger_new_settled)
          show "promises ?rt' = promises ?rt @ [Settled s]" by (simp add: st)
          show "promise_of (pred i) = Settled s" by (rule Settled)
          show "posted ?rt' = posted ?rt @ [response_of (runId m, s)]" by (simp add: st)
          show "jobs ?rt' = []" by (simp add: st)
          show "escaped ?rt' = []" using e by (simp add: st)
        qed
        then have "ledger pred (evs @ [ev]) (?runs @ [(runId m, i)]) ?rt' (order @ [length ?runs])"
          by (rule ledger_more_events)
        then show ?thesis unfolding r sr unfolding Message ..
      next
        case (Pending rs)
        then have pe: "promise_of (pred i) = Pending []"
          using promise_of_Pending by fastforce
        have st: "?rt' = (log_inputs m ?rt)\<lparr>calls := calls (log_inputs m ?rt) @ [PredicateCall i],
                        promises := promises ?rt @ [Pending [runId m]]\<rparr>"
          using True mi j pe by (rule step_pending)
        have "ledger pred evs (?runs @ [(runId m, i)]) ?rt' order"
          using l
        proof (rule ledger_new_pending)
          show "promises ?rt' = promises ?rt @ [Pending [runId m]]" by (simp add: st)
          show "promise_of (pred i) = Pending []" by (rule pe)
          show "posted ?rt' = posted ?rt" by (simp add: st)
          show "jobs ?rt' = []" using j by (simp add: st)
          show "escaped ?rt' = []" using e by (simp add: st)
        qed
        then have "ledger pred (evs @ [ev]) (?runs @ [(runId m, i)]) ?rt' order"
          by (rule ledger_more_events)
        then show ?thesis unfolding r sr unfolding Message ..
      qed
    qed
  qed
qed

text \<open>
  C1. As long as \<open>buildInputs\<close> has not thrown, every accepted message starts a run,
  and after any sequence of events, with any number of runs in flight and the promises
  settled in any order: each run has a promise of its own; while that promise is pending
  the one reaction waiting on it is the run's and no response has been posted for the
  run; once it is settled exactly one response has been posted for the run, and this
  response carries the \<open>runId\<close> of the run's message and the outcome of the run's own
  promise (what the predicate did on the run's inputs, or what its pending promise was
  settled with). The messages posted are these responses and nothing else.
\<close>

theorem each_run_answered_once:
  assumes "\<forall>ev \<in> set evs. \<not> thrower pid bi ev"
  shows "map fst (started_runs pid bi evs) = map event_runId (filter (accepted pid) evs)
    \<and> length (promises (run pid pred bi evs)) = length (started_runs pid bi evs)
    \<and> (\<forall>k < length (started_runs pid bi evs).
          own_promise pred evs (started_runs pid bi evs) (promises (run pid pred bi evs)) k)
    \<and> (\<exists>order. distinct order
          \<and> set order = {k. k < length (started_runs pid bi evs)
                           \<and> answer (promises (run pid pred bi evs)) (started_runs pid bi evs) k \<noteq> None}
          \<and> map Some (posted (run pid pred bi evs))
              = map (answer (promises (run pid pred bi evs)) (started_runs pid bi evs)) order)
    \<and> jobs (run pid pred bi evs) = []
    \<and> escaped (run pid pred bi evs) = []"
proof -
  from ledger_run [OF assms, of pred] obtain order
    where "ledger pred evs (started_runs pid bi evs) (run pid pred bi evs) order" ..
  then show ?thesis
    using started_runs_accepted [OF assms] unfolding ledger_def by blast
qed

lemma two_runs_trace:
  "run 1 asynchronous rebuild
      [Message (state_message 100), Message (main_message 101),
       Settle 1 (Rejected ''late''), Settle 0 (Fulfilled Undefined)]
   = \<lparr>promises = [Settled (Fulfilled Undefined), Settled (Rejected ''late'')], jobs = [],
      posted = [Failure ''late'' 101, Success Undefined 100],
      calls = [BuildInputsCall 7, PredicateCall [7], PredicateCall [3, 4]], escaped = []\<rparr>"
  by code_simp

theorem each_run_answered_once_witness:
  "map fst (started_runs 1 rebuild
      [Message (state_message 100), Message (main_message 101),
       Settle 1 (Rejected ''late''), Settle 0 (Fulfilled Undefined)]) = [100, 101]
   \<and> promises (run 1 asynchronous rebuild
      [Message (state_message 100), Message (main_message 101),
       Settle 1 (Rejected ''late''), Settle 0 (Fulfilled Undefined)])
     = [Settled (Fulfilled Undefined), Settled (Rejected ''late'')]
   \<and> posted (run 1 asynchronous rebuild
      [Message (state_message 100), Message (main_message 101),
       Settle 1 (Rejected ''late''), Settle 0 (Fulfilled Undefined)])
     = [Failure ''late'' 101, Success Undefined 100]"
proof -
  let ?evs = "[Message (state_message 100), Message (main_message 101),
       Settle 1 (Rejected ''late''), Settle 0 (Fulfilled Undefined)]"
  have nt: "\<forall>ev \<in> set ?evs. \<not> thrower 1 rebuild ev"
    by (simp add: example_defs message_inputs_def)
  have acc: "map event_runId (filter (accepted 1) ?evs) = [100, 101]"
    by (simp add: example_defs accepted_def)
  from each_run_answered_once [OF nt, of asynchronous] acc
  have "map fst (started_runs 1 rebuild ?evs) = [100, 101]" by simp
  then show ?thesis unfolding two_runs_trace by simp
qed

text \<open>
  C1 as it is stated speaks of every accepted message and of exactly one response. It
  fails for an accepted message with a \<open>state\<close> payload when \<open>buildInputs\<close> throws: the
  exception leaves the listener, nothing is posted and no reaction is left that could
  post later. It also fails as long as the promise of the predicate is pending: the
  message is accepted, its inputs are obtained, and with no event that settles the
  promise nothing is posted.
\<close>

theorem accepted_message_without_response:
  "accepted 1 (Message (state_message 100))
   \<and> posted (run 1 passing failing_rebuild [Message (state_message 100)]) = []
   \<and> pending_reactions (run 1 passing failing_rebuild [Message (state_message 100)]) = []
   \<and> jobs (run 1 passing failing_rebuild [Message (state_message 100)]) = []
   \<and> escaped (run 1 passing failing_rebuild [Message (state_message 100)]) = [''cannot rebuild'']
   \<and> posted (run 1 asynchronous rebuild [Message (state_message 100)]) = []
   \<and> promises (run 1 asynchronous rebuild [Message (state_message 100)]) = [Pending [100]]
   \<and> escaped (run 1 asynchronous rebuild [Message (state_message 100)]) = []"
  by (simp add: example_defs accepted_def run_single step_def runWorker_def initial_def run_jobs_def
      pending_reactions_def wrapAndRunAsPromise_def call_predicate_def new_promise_def
      Promise_resolve_def promise_then_def)

end
